theory Spec2Isabelle
  imports Complex_Main "HOL-Library.Multiset"
begin

section \<open>Tensor elements\<close>

text \<open>
  The notebook computes with torch and numpy floating-point tensors. An element is modelled
  as an exact real number or one of the three IEEE special values. Rounding, overflow and
  the sign of zero are not modelled: a finite result is the exact real result, and a zero
  divisor counts as positive zero (the only divisor of the notebook is a norm).
\<close>

datatype fl = Fin real | PInf | NInf | NaN

fun fadd :: "fl \<Rightarrow> fl \<Rightarrow> fl" where
  "fadd NaN y = NaN"
| "fadd x NaN = NaN"
| "fadd (Fin a) (Fin b) = Fin (a + b)"
| "fadd PInf NInf = NaN"
| "fadd NInf PInf = NaN"
| "fadd PInf y = PInf"
| "fadd x PInf = PInf"
| "fadd NInf y = NInf"
| "fadd x NInf = NInf"

text \<open>The sign of an element: 1, 0 or -1 (NaN has none and is handled before it is asked).\<close>

fun fsign :: "fl \<Rightarrow> int" where
  "fsign (Fin a) = (if a > 0 then 1 else if a < 0 then -1 else 0)"
| "fsign PInf = 1"
| "fsign NInf = -1"
| "fsign NaN = 0"

definition inf_of_sign :: "int \<Rightarrow> fl" where
  "inf_of_sign s = (if s > 0 then PInf else if s < 0 then NInf else NaN)"

fun fmul :: "fl \<Rightarrow> fl \<Rightarrow> fl" where
  "fmul NaN y = NaN"
| "fmul x NaN = NaN"
| "fmul (Fin a) (Fin b) = Fin (a * b)"
| "fmul x y = inf_of_sign (fsign x * fsign y)"

fun fdiv :: "fl \<Rightarrow> fl \<Rightarrow> fl" where
  "fdiv NaN y = NaN"
| "fdiv x NaN = NaN"
| "fdiv (Fin a) (Fin b) = (if b = 0 then inf_of_sign (fsign (Fin a)) else Fin (a / b))"
| "fdiv (Fin a) y = Fin 0"
| "fdiv x (Fin b) = inf_of_sign (fsign x * (if b < 0 then -1 else 1))"
| "fdiv x y = NaN"

fun fsqrt :: "fl \<Rightarrow> fl" where
  "fsqrt (Fin a) = (if a < 0 then NaN else Fin (sqrt a))"
| "fsqrt PInf = PInf"
| "fsqrt NInf = NaN"
| "fsqrt NaN = NaN"

text \<open>The comparison \<open>x <= y\<close> of IEEE arithmetic: false as soon as one side is NaN.\<close>

fun fle :: "fl \<Rightarrow> fl \<Rightarrow> bool" where
  "fle NaN y = False"
| "fle x NaN = False"
| "fle (Fin a) (Fin b) = (a \<le> b)"
| "fle NInf y = True"
| "fle x PInf = True"
| "fle x y = False"

definition flt :: "fl \<Rightarrow> fl \<Rightarrow> bool" where
  "flt x y = (fle x y \<and> \<not> fle y x)"

definition isnan :: "fl \<Rightarrow> bool" where
  "isnan x = (x = NaN)"

section \<open>Tensor operations used by the notebook\<close>

type_synonym row = "fl list"
type_synonym tensor2 = "fl list list"

definition fsum :: "fl list \<Rightarrow> fl" where
  "fsum xs = foldr fadd xs (Fin 0)"

text \<open>\<open>x.norm(dim=-1, keepdim=True)\<close>: the Euclidean norm of each row.\<close>

definition norm_row :: "row \<Rightarrow> fl" where
  "norm_row x = fsqrt (fsum (map (\<lambda>a. fmul a a) x))"

text \<open>
  \<open>x / x.norm(dim=-1, keepdim=True)\<close>: every element of a row is divided by the norm of
  its row. Nothing is checked before the division.
\<close>

definition normalize_row :: "row \<Rightarrow> row" where
  "normalize_row r = map (\<lambda>a. fdiv a (norm_row r)) r"

definition normalize :: "tensor2 \<Rightarrow> tensor2" where
  "normalize x = map normalize_row x"

definition dot :: "row \<Rightarrow> row \<Rightarrow> fl" where
  "dot u v = fsum (map (\<lambda>(a, b). fmul a b) (zip u v))"

section \<open>Errors\<close>

text \<open>
  The notebook handles no exception: the first one raised ends the run. The exceptions are
  named by the kind of failure they report:
  \<^item> \<open>FetchError\<close>: \<open>requests.get\<close> raises (no response was obtained);
  \<^item> \<open>DecodeError\<close>: \<open>Image.open\<close> raises (the bytes are not an image);
  \<^item> \<open>ModelLoadError\<close>: \<open>clip.load\<close> raises (unknown name, checkpoint not available);
  \<^item> \<open>ContextLengthError\<close>: \<open>clip.tokenize\<close> raises (a prompt has too many tokens);
  \<^item> \<open>ShapeError\<close>: the matrix product raises (the inner dimensions differ);
  \<^item> \<open>InvalidInputError\<close>: \<open>argmax\<close> raises ValueError (arg-max of an empty sequence);
  \<^item> \<open>IndexError\<close>: indexing the prompt list out of range raises;
  \<^item> \<open>NormalizationError\<close>: raised nowhere in the notebook.
\<close>

datatype error =
    FetchError
  | DecodeError
  | ModelLoadError
  | ContextLengthError
  | ShapeError
  | InvalidInputError
  | IndexError
  | NormalizationError

section \<open>The external collaborators\<close>

text \<open>
  The world in which the notebook runs: the network, the image decoder and the colour
  conversion of PIL, the checkpoints that \<open>clip.load\<close> can obtain, whether
  \<open>torch.cuda.is_available()\<close> holds, the text that \<open>%pip install\<close> writes, the text that
  \<open>clip.load\<close> writes (the progress of a download; nothing when the checkpoint is cached), and the two
  conversions of a numpy float to text: \<open>format_float\<close> is \<open>format(x, "")\<close>, used by an
  f-string, and \<open>str_float\<close> is \<open>str(x)\<close>, used by \<open>print\<close>. The two differ on numpy
  floats. The installation is taken to succeed, so the imports of the notebook do not fail.

  What \<open>requests.get\<close> meets on the network: no response at all (it raises), or a response
  with a status code and a body. \<open>requests.get\<close> returns the response whatever its status.
\<close>

datatype http_result = NoResponse | Response nat string

record response =
  status_code :: nat
  content :: string

text \<open>
  The loaded model: \<open>clip.load\<close> returns the model and its image preprocessor; the
  tokenizer belongs to the same library. The encoders are total functions applied to each
  row of a batch; \<open>tokenize_one\<close> is None for a prompt longer than the context length.
\<close>

record ('img, 'px, 'tok) clip_model =
  preprocess :: "'img \<Rightarrow> 'px"
  encode_image :: "'px \<Rightarrow> row"
  tokenize_one :: "string \<Rightarrow> 'tok option"
  encode_text :: "'tok \<Rightarrow> row"

record ('img, 'px, 'tok) world =
  net :: "string \<Rightarrow> http_result"
  decode :: "string \<Rightarrow> 'img option"
  convert_RGB :: "'img \<Rightarrow> 'img"
  checkpoints :: "string \<Rightarrow> ('img, 'px, 'tok) clip_model option"
  cuda_available :: bool
  pip_output :: string
  load_output :: string
  format_float :: "fl \<Rightarrow> string"
  str_float :: "fl \<Rightarrow> string"

definition requests_get :: "('img, 'px, 'tok) world \<Rightarrow> string \<Rightarrow> error + response" where
  "requests_get w url =
     (case net w url of
        NoResponse \<Rightarrow> Inl FetchError
      | Response st body \<Rightarrow> Inr \<lparr>status_code = st, content = body\<rparr>)"

definition Image_open :: "('img, 'px, 'tok) world \<Rightarrow> string \<Rightarrow> error + 'img" where
  "Image_open w bytes = (case decode w bytes of None \<Rightarrow> Inl DecodeError | Some im \<Rightarrow> Inr im)"

definition clip_load ::
    "('img, 'px, 'tok) world \<Rightarrow> string \<Rightarrow> error + ('img, 'px, 'tok) clip_model" where
  "clip_load w name = (case checkpoints w name of None \<Rightarrow> Inl ModelLoadError | Some m \<Rightarrow> Inr m)"

fun clip_tokenize :: "('img, 'px, 'tok) clip_model \<Rightarrow> string list \<Rightarrow> error + 'tok list" where
  "clip_tokenize m [] = Inr []"
| "clip_tokenize m (t # ts) =
     (case tokenize_one m t of
        None \<Rightarrow> Inl ContextLengthError
      | Some k \<Rightarrow> (case clip_tokenize m ts of Inl e \<Rightarrow> Inl e | Inr ks \<Rightarrow> Inr (k # ks)))"

section \<open>The ranking cell\<close>

text \<open>
  \<open>(image_features @ text_features.T).cpu().numpy().flatten()\<close>: the product of an
  \<open>M x d\<close> by the transpose of an \<open>N x d\<close> tensor, flattened row by row. The product
  raises when a row of the right operand has not the length of the rows of the left one.
\<close>

definition matmul_T :: "tensor2 \<Rightarrow> tensor2 \<Rightarrow> error + tensor2" where
  "matmul_T a b =
     (if \<forall>u \<in> set a. \<forall>v \<in> set b. length v = length u
      then Inr (map (\<lambda>u. map (\<lambda>v. dot u v) b) a)
      else Inl ShapeError)"

definition flatten :: "tensor2 \<Rightarrow> fl list" where
  "flatten x = concat x"

text \<open>
  numpy's \<open>argmax\<close> on a one-dimensional array of floats: it raises on an empty array;
  otherwise it scans from the left, keeps the first element that no later element exceeds,
  and stops at the first NaN, which counts as the maximum.
\<close>

fun argmax_loop :: "fl \<Rightarrow> nat \<Rightarrow> nat \<Rightarrow> fl list \<Rightarrow> nat" where
  "argmax_loop mp max_ind i [] = max_ind"
| "argmax_loop mp max_ind i (x # xs) =
     (if \<not> fle x mp
      then (if isnan x then i else argmax_loop x i (Suc i) xs)
      else argmax_loop mp max_ind (Suc i) xs)"

definition argmax :: "fl list \<Rightarrow> error + nat" where
  "argmax a =
     (case a of
        [] \<Rightarrow> Inl InvalidInputError
      | x # xs \<Rightarrow> Inr (if isnan x then 0 else argmax_loop x 0 1 xs))"

text \<open>Indexing a Python list with a non-negative index.\<close>

definition index :: "'a list \<Rightarrow> nat \<Rightarrow> error + 'a" where
  "index xs i = (if i < length xs then Inr (xs ! i) else Inl IndexError)"

text \<open>\<open>print(a, b, ...)\<close>: the arguments separated by one space, then a newline.\<close>

fun join_space :: "string list \<Rightarrow> string" where
  "join_space [] = []"
| "join_space [a] = a"
| "join_space (a # b # rest) = a @ '' '' @ join_space (b # rest)"

definition print :: "string \<Rightarrow> string list \<Rightarrow> string" where
  "print out args = out @ join_space args @ [CHR 0x0A]"

text \<open>
  The f-string \<open>f"Prompt: {prompt} | Similarity score: {score}"\<close>: an f-string renders
  the score with \<open>format\<close>, here the conversion \<open>ff\<close>.
\<close>

definition score_text :: "(fl \<Rightarrow> string) \<Rightarrow> string \<Rightarrow> fl \<Rightarrow> string" where
  "score_text ff prompt score = ''Prompt: '' @ prompt @ '' | Similarity score: '' @ ff score"

text \<open>The loop \<open>for prompt, score in zip(text_prompts, similarity): print(f"...")\<close>.\<close>

fun print_scores :: "(fl \<Rightarrow> string) \<Rightarrow> string \<Rightarrow> (string \<times> fl) list \<Rightarrow> string" where
  "print_scores ff out [] = out"
| "print_scores ff out ((prompt, score) # rest) =
     print_scores ff (print out [score_text ff prompt score]) rest"

record report =
  similarity :: "fl list"
  best_match_idx :: nat
  best_prompt :: string
  best_score :: fl

text \<open>
  The last code cell, from the two feature tensors and the prompt list to the text written
  by \<open>print\<close> and the values computed. The text keeps what was printed before an
  exception. The score lines come from an f-string (conversion \<open>ff\<close>); the last line
  passes the score itself to \<open>print\<close>, which renders it with \<open>str\<close> (conversion \<open>sf\<close>).
\<close>

definition ranking_cell ::
    "(fl \<Rightarrow> string) \<Rightarrow> (fl \<Rightarrow> string) \<Rightarrow> tensor2 \<Rightarrow> tensor2 \<Rightarrow> string list
       \<Rightarrow> string \<times> (error + report)" where
  "ranking_cell ff sf image_features text_features text_prompts =
     (case matmul_T image_features text_features of
        Inl e \<Rightarrow> ([], Inl e)
      | Inr product \<Rightarrow>
          let sim = flatten product;
              out1 = print_scores ff [] (zip text_prompts sim)
          in (case argmax sim of
                Inl e \<Rightarrow> (out1, Inl e)
              | Inr idx \<Rightarrow>
                  (case index text_prompts idx of
                     Inl e \<Rightarrow> (out1, Inl e)
                   | Inr bp \<Rightarrow>
                       let out2 = print out1
                             [CHR 0x0A # ''The most similar text prompt to the input image is:'', bp]
                       in (case index sim idx of
                             Inl e \<Rightarrow> (out2, Inl e)
                           | Inr bs \<Rightarrow>
                               (print out2 [''Similarity score:'', sf bs],
                                Inr \<lparr>similarity = sim, best_match_idx = idx,
                                     best_prompt = bp, best_score = bs\<rparr>)))))"

section \<open>The encoding cells\<close>

text \<open>
  \<open>image_input = preprocess(image).unsqueeze(0)\<close> is a batch of one image; the features
  are the encoder's output divided by its norm.
\<close>

definition image_cell :: "('img, 'px, 'tok) clip_model \<Rightarrow> 'img \<Rightarrow> tensor2" where
  "image_cell model rgb =
     (let image_input = [preprocess model rgb];
          image_features = map (encode_image model) image_input
      in normalize image_features)"

definition text_cell :: "('img, 'px, 'tok) clip_model \<Rightarrow> string list \<Rightarrow> error + tensor2" where
  "text_cell model text_prompts =
     (case clip_tokenize model text_prompts of
        Inl e \<Rightarrow> Inl e
      | Inr text_inputs \<Rightarrow>
          let text_features = map (encode_text model) text_inputs
          in Inr (normalize text_features))"

section \<open>The notebook, run from the first cell to the last\<close>

text \<open>
  The cells run in order and the run ends at the first exception. The outcome records the
  calls that the code makes to the libraries, the text written by \<open>print\<close>, and the values
  of the last cell or the exception. What the cells display besides is \<open>cell_outputs\<close>
  below.
\<close>

datatype call = HttpGet | ImageOpen | ClipLoad | EncodeImage | Tokenize | EncodeText

record outcome =
  calls :: "call list"
  console :: string
  result :: "error + report"

definition run_all ::
    "('img, 'px, 'tok) world \<Rightarrow> string \<Rightarrow> string list \<Rightarrow> outcome" where
  "run_all w image_url text_prompts =
     (case requests_get w image_url of
        Inl e \<Rightarrow> \<lparr>calls = [HttpGet], console = [], result = Inl e\<rparr>
      | Inr resp \<Rightarrow>
     (case Image_open w (content resp) of
        Inl e \<Rightarrow> \<lparr>calls = [HttpGet, ImageOpen], console = [], result = Inl e\<rparr>
      | Inr im \<Rightarrow>
     (let rgb = convert_RGB w im in
     (case clip_load w ''ViT-B/32'' of
        Inl e \<Rightarrow> \<lparr>calls = [HttpGet, ImageOpen, ClipLoad], console = [], result = Inl e\<rparr>
      | Inr model \<Rightarrow>
     (let image_features = image_cell model rgb in
     (case text_cell model text_prompts of
        Inl e \<Rightarrow> \<lparr>calls = [HttpGet, ImageOpen, ClipLoad, EncodeImage, Tokenize],
                  console = [], result = Inl e\<rparr>
      | Inr text_features \<Rightarrow>
     (let (out, res) = ranking_cell (format_float w) (str_float w)
                         image_features text_features text_prompts
      in \<lparr>calls = [HttpGet, ImageOpen, ClipLoad, EncodeImage, Tokenize, EncodeText],
           console = out, result = res\<rparr>)))))))"

section \<open>What the notebook shows\<close>

text \<open>
  Each cell shows its stream output, the value of its last expression, and the exception
  that ends it. Cell 1 ends with the expression \<open>device\<close>, shown as the \<open>repr\<close> of a string;
  cell 3 shows what \<open>%pip install\<close> writes; cell 6 ends with the expression \<open>image\<close>, shown as
  a picture when the image was fetched and decoded; cell 8, when it is reached, shows what
  \<open>clip.load\<close> writes, if anything; the last cell shows the text written by \<open>print\<close>, if any.
  A run that ends with an exception shows it.
\<close>

datatype 'img shown = ValueShown string | StreamShown string | ImageShown 'img | ErrorShown error

definition device :: "('img, 'px, 'tok) world \<Rightarrow> string" where
  "device w = (if cuda_available w then ''cuda'' else ''cpu'')"

text \<open>The \<open>repr\<close> of a string that contains no quote and no escape.\<close>

definition repr_str :: "string \<Rightarrow> string" where
  "repr_str s = [CHR 0x27] @ s @ [CHR 0x27]"

definition cell_outputs ::
    "('img, 'px, 'tok) world \<Rightarrow> string \<Rightarrow> string list \<Rightarrow> 'img shown list" where
  "cell_outputs w image_url text_prompts =
     (let run = run_all w image_url text_prompts in
      [ValueShown (repr_str (device w)), StreamShown (pip_output w)]
      @ (case requests_get w image_url of
           Inl e \<Rightarrow> []
         | Inr resp \<Rightarrow>
             (case Image_open w (content resp) of
                Inl e \<Rightarrow> []
              | Inr im \<Rightarrow>
                  [ImageShown (convert_RGB w im)]
                  @ (if load_output w = [] then [] else [StreamShown (load_output w)])))
      @ (if console run = [] then [] else [StreamShown (console run)])
      @ (case result run of Inl e \<Rightarrow> [ErrorShown e] | Inr r \<Rightarrow> []))"

section \<open>A small world for concrete runs\<close>

text \<open>
  A two-dimensional model: the image and the prompt \<open>a photo of a dog\<close> are encoded as
  \<open>[1, 0]\<close>, every other prompt as \<open>[0, 1]\<close>. Every request is answered with status
  200 and a body that decodes.
\<close>

definition demo_str :: "fl \<Rightarrow> string" where
  "demo_str x =
     (case x of
        Fin a \<Rightarrow> (if a = 1 then ''1.0'' else if a = 0 then ''0.0''
                  else if a = 24 / 25 then ''0.96'' else if a = 4 / 5 then ''0.8'' else ''?'')
      | PInf \<Rightarrow> ''inf'' | NInf \<Rightarrow> ''-inf'' | NaN \<Rightarrow> ''nan'')"

definition demo_format :: "fl \<Rightarrow> string" where
  "demo_format x =
     (case x of
        Fin a \<Rightarrow> (if a = 1 then ''1.0'' else if a = 0 then ''0.0''
                  else if a = 24 / 25 then ''0.9599999785423279''
                  else if a = 4 / 5 then ''0.800000011920929'' else ''?'')
      | PInf \<Rightarrow> ''inf'' | NInf \<Rightarrow> ''-inf'' | NaN \<Rightarrow> ''nan'')"

definition demo_model :: "(nat, nat, string) clip_model" where
  "demo_model =
     \<lparr>preprocess = (\<lambda>im. im),
      encode_image = (\<lambda>px. [Fin 1, Fin 0]),
      tokenize_one = (\<lambda>t. Some t),
      encode_text = (\<lambda>k. if k = ''a photo of a dog'' then [Fin 1, Fin 0] else [Fin 0, Fin 1])\<rparr>"

definition demo_world :: "(nat, nat, string) world" where
  "demo_world =
     \<lparr>net = (\<lambda>url. Response 200 ''bytes''),
      decode = (\<lambda>b. if b = ''bytes'' then Some 0 else None),
      convert_RGB = (\<lambda>im. im),
      checkpoints = (\<lambda>name. Some demo_model),
      cuda_available = False,
      pip_output = ''Successfully installed clip-1.0'',
      load_output = [],
      format_float = demo_format,
      str_float = demo_str\<rparr>"

text \<open>
  Variants of the small world: no network; a server that answers 404 with an error page;
  a server that answers 404 with an image; a text encoder whose output is the zero vector.
\<close>

definition offline_world :: "(nat, nat, string) world" where
  "offline_world = demo_world\<lparr>net := (\<lambda>url. NoResponse)\<rparr>"

definition not_found_world :: "(nat, nat, string) world" where
  "not_found_world = demo_world\<lparr>net := (\<lambda>url. Response 404 ''<html>Not Found</html>'')\<rparr>"

definition placeholder_world :: "(nat, nat, string) world" where
  "placeholder_world = demo_world\<lparr>net := (\<lambda>url. Response 404 ''bytes'')\<rparr>"

definition zero_model :: "(nat, nat, string) clip_model" where
  "zero_model = demo_model\<lparr>encode_text := (\<lambda>k. [Fin 0, Fin 0])\<rparr>"

definition zero_world :: "(nat, nat, string) world" where
  "zero_world = demo_world\<lparr>checkpoints := (\<lambda>name. Some zero_model)\<rparr>"

text \<open>
  A text encoder whose output is the zero vector for every prompt but
  \<open>a photo of a dog\<close>, and a model whose scores are 0.96 and 0.8, which \<open>format\<close> and
  \<open>str\<close> render differently.
\<close>

definition partly_zero_model :: "(nat, nat, string) clip_model" where
  "partly_zero_model =
     demo_model\<lparr>encode_text :=
       (\<lambda>k. if k = ''a photo of a dog'' then [Fin 1, Fin 0] else [Fin 0, Fin 0])\<rparr>"

definition partly_zero_world :: "(nat, nat, string) world" where
  "partly_zero_world = demo_world\<lparr>checkpoints := (\<lambda>name. Some partly_zero_model)\<rparr>"

definition slanted_model :: "(nat, nat, string) clip_model" where
  "slanted_model =
     demo_model\<lparr>encode_image := (\<lambda>px. [Fin (3 / 5), Fin (4 / 5)]),
       encode_text :=
         (\<lambda>k. if k = ''a photo of a dog'' then [Fin (4 / 5), Fin (3 / 5)] else [Fin 0, Fin 1])\<rparr>"

definition slanted_world :: "(nat, nat, string) world" where
  "slanted_world = demo_world\<lparr>checkpoints := (\<lambda>name. Some slanted_model)\<rparr>"

section \<open>Notions used in the statements\<close>

text \<open>The sum of the squares of a list of reals.\<close>

definition sumsq :: "real list \<Rightarrow> real" where
  "sumsq xs = sum_list (map (\<lambda>x. x * x) xs)"

section \<open>Properties of the comparison\<close>

lemma fle_refl: "x \<noteq> NaN \<Longrightarrow> fle x x"
  by (cases x) simp_all

lemma fle_trans: "fle x y \<Longrightarrow> fle y z \<Longrightarrow> fle x z"
  by (cases x; cases y; cases z) simp_all

lemma fle_total: "x \<noteq> NaN \<Longrightarrow> y \<noteq> NaN \<Longrightarrow> fle x y \<or> fle y x"
  by (cases x; cases y) auto

lemma fle_antisym: "fle x y \<Longrightarrow> fle y x \<Longrightarrow> x = y"
  by (cases x; cases y) simp_all

section \<open>The arg-max loop\<close>

lemma argmax_loop_bound:
  "max_ind < i \<Longrightarrow> argmax_loop mp max_ind i xs < i + length xs"
proof (induction xs arbitrary: mp max_ind i)
  case Nil
  then show ?case by simp
next
  case (Cons x xs)
  have a: "argmax_loop x i (Suc i) xs < Suc i + length xs"
    by (rule Cons.IH) simp
  have b: "argmax_loop mp max_ind (Suc i) xs < Suc i + length xs"
    by (rule Cons.IH) (use Cons.prems in simp)
  show ?case using a b by simp
qed

lemma argmax_loop_spec:
  assumes "\<forall>x \<in> set xs. x \<noteq> NaN" and "mp \<noteq> NaN"
  shows "(argmax_loop mp max_ind i xs = max_ind \<and> (\<forall>x \<in> set xs. fle x mp))
       \<or> (\<exists>k < length xs. argmax_loop mp max_ind i xs = i + k \<and> \<not> fle (xs ! k) mp
            \<and> (\<forall>x \<in> set xs. fle x (xs ! k)) \<and> (\<forall>j < k. \<not> fle (xs ! k) (xs ! j)))"
  using assms
proof (induction xs arbitrary: mp max_ind i)
  case Nil
  then show ?case by simp
next
  case (Cons x xs)
  have xs_ok: "\<forall>y \<in> set xs. y \<noteq> NaN" and x_ok: "x \<noteq> NaN"
    using Cons.prems(1) by simp_all
  show ?case
  proof (cases "fle x mp")
    case True
    have step: "argmax_loop mp max_ind i (x # xs) = argmax_loop mp max_ind (Suc i) xs"
      using True by simp
    from Cons.IH [OF xs_ok Cons.prems(2), of max_ind "Suc i"]
    show ?thesis
    proof
      assume "argmax_loop mp max_ind (Suc i) xs = max_ind \<and> (\<forall>x \<in> set xs. fle x mp)"
      then show ?thesis using True step by simp
    next
      assume "\<exists>k < length xs. argmax_loop mp max_ind (Suc i) xs = Suc i + k
                \<and> \<not> fle (xs ! k) mp \<and> (\<forall>x \<in> set xs. fle x (xs ! k))
                \<and> (\<forall>j < k. \<not> fle (xs ! k) (xs ! j))"
      then obtain k where k: "k < length xs"
        "argmax_loop mp max_ind (Suc i) xs = Suc i + k" "\<not> fle (xs ! k) mp"
        "\<forall>x \<in> set xs. fle x (xs ! k)" "\<forall>j < k. \<not> fle (xs ! k) (xs ! j)"
        by blast
      have nk: "xs ! k \<noteq> NaN" using k(1) xs_ok by simp
      have "fle mp (xs ! k)" using fle_total [OF nk Cons.prems(2)] k(3) by blast
      then have le: "fle x (xs ! k)" using True fle_trans by blast
      have nle: "\<not> fle (xs ! k) x" using k(3) True fle_trans by blast
      have "\<forall>j < Suc k. \<not> fle ((x # xs) ! Suc k) ((x # xs) ! j)"
        using nle k(5) by (auto simp: less_Suc_eq_0_disj)
      then have "Suc k < length (x # xs) \<and> argmax_loop mp max_ind i (x # xs) = i + Suc k
          \<and> \<not> fle ((x # xs) ! Suc k) mp \<and> (\<forall>y \<in> set (x # xs). fle y ((x # xs) ! Suc k))
          \<and> (\<forall>j < Suc k. \<not> fle ((x # xs) ! Suc k) ((x # xs) ! j))"
        using k le step by simp
      then show ?thesis by blast
    qed
  next
    case False
    have step: "argmax_loop mp max_ind i (x # xs) = argmax_loop x i (Suc i) xs"
      using False x_ok by (simp add: isnan_def)
    from Cons.IH [OF xs_ok x_ok, of i "Suc i"]
    show ?thesis
    proof
      assume "argmax_loop x i (Suc i) xs = i \<and> (\<forall>y \<in> set xs. fle y x)"
      then have "0 < length (x # xs) \<and> argmax_loop mp max_ind i (x # xs) = i + 0
          \<and> \<not> fle ((x # xs) ! 0) mp \<and> (\<forall>y \<in> set (x # xs). fle y ((x # xs) ! 0))
          \<and> (\<forall>j < (0::nat). \<not> fle ((x # xs) ! 0) ((x # xs) ! j))"
        using False step fle_refl [OF x_ok] by simp
      then show ?thesis by blast
    next
      assume "\<exists>k < length xs. argmax_loop x i (Suc i) xs = Suc i + k
                \<and> \<not> fle (xs ! k) x \<and> (\<forall>y \<in> set xs. fle y (xs ! k))
                \<and> (\<forall>j < k. \<not> fle (xs ! k) (xs ! j))"
      then obtain k where k: "k < length xs"
        "argmax_loop x i (Suc i) xs = Suc i + k" "\<not> fle (xs ! k) x"
        "\<forall>y \<in> set xs. fle y (xs ! k)" "\<forall>j < k. \<not> fle (xs ! k) (xs ! j)"
        by blast
      have nk: "xs ! k \<noteq> NaN" using k(1) xs_ok by simp
      have le: "fle x (xs ! k)" using fle_total [OF nk x_ok] k(3) by blast
      have "fle mp x" using fle_total [OF x_ok Cons.prems(2)] False by blast
      then have nle: "\<not> fle (xs ! k) mp" using k(3) fle_trans by blast
      have "\<forall>j < Suc k. \<not> fle ((x # xs) ! Suc k) ((x # xs) ! j)"
        using k(3) k(5) by (auto simp: less_Suc_eq_0_disj)
      then have "Suc k < length (x # xs) \<and> argmax_loop mp max_ind i (x # xs) = i + Suc k
          \<and> \<not> fle ((x # xs) ! Suc k) mp \<and> (\<forall>y \<in> set (x # xs). fle y ((x # xs) ! Suc k))
          \<and> (\<forall>j < Suc k. \<not> fle ((x # xs) ! Suc k) ((x # xs) ! j))"
        using k le nle step by simp
      then show ?thesis by blast
    qed
  qed
qed

lemma argmax_bound: "argmax s = Inr i \<Longrightarrow> i < length s"
proof (cases s)
  case Nil
  assume "argmax s = Inr i"
  with Nil show ?thesis by (simp add: argmax_def)
next
  case (Cons x xs)
  assume a: "argmax s = Inr i"
  have "argmax_loop x 0 1 xs < 1 + length xs"
    by (rule argmax_loop_bound) simp
  with a Cons show ?thesis by (auto simp: argmax_def split: if_splits)
qed

lemma argmax_nonempty: "s \<noteq> [] \<Longrightarrow> \<exists>i. argmax s = Inr i"
  by (cases s) (simp_all add: argmax_def)

lemma argmax_Inl: "argmax s = Inl e \<Longrightarrow> e = InvalidInputError \<and> s = []"
  by (cases s) (auto simp: argmax_def)

lemma argmax_first_max:
  assumes "s \<noteq> []" and "\<forall>x \<in> set s. x \<noteq> NaN"
  shows "\<exists>i < length s. argmax s = Inr i \<and> (\<forall>j < length s. fle (s ! j) (s ! i))
           \<and> (\<forall>j < i. \<not> fle (s ! i) (s ! j))"
proof -
  from assms(1) obtain x xs where s: "s = x # xs" by (cases s) auto
  have x_ok: "x \<noteq> NaN" and xs_ok: "\<forall>y \<in> set xs. y \<noteq> NaN"
    using assms(2) s by simp_all
  have am: "argmax s = Inr (argmax_loop x 0 1 xs)"
    using s x_ok by (simp add: argmax_def isnan_def)
  from argmax_loop_spec [OF xs_ok x_ok, of 0 1]
  show ?thesis
  proof
    assume h: "argmax_loop x 0 1 xs = 0 \<and> (\<forall>y \<in> set xs. fle y x)"
    have "\<forall>j < length s. fle (s ! j) (s ! 0)"
    proof (intro allI impI)
      fix j assume "j < length s"
      then show "fle (s ! j) (s ! 0)"
        using h s fle_refl [OF x_ok] by (cases j) simp_all
    qed
    then have "0 < length s \<and> argmax s = Inr 0 \<and> (\<forall>j < length s. fle (s ! j) (s ! 0))
        \<and> (\<forall>j < (0::nat). \<not> fle (s ! 0) (s ! j))"
      using am h s by simp
    then show ?thesis by blast
  next
    assume "\<exists>k < length xs. argmax_loop x 0 1 xs = 1 + k \<and> \<not> fle (xs ! k) x
              \<and> (\<forall>y \<in> set xs. fle y (xs ! k)) \<and> (\<forall>j < k. \<not> fle (xs ! k) (xs ! j))"
    then obtain k where k: "k < length xs" "argmax_loop x 0 1 xs = 1 + k"
      "\<not> fle (xs ! k) x" "\<forall>y \<in> set xs. fle y (xs ! k)" "\<forall>j < k. \<not> fle (xs ! k) (xs ! j)"
      by blast
    have nk: "xs ! k \<noteq> NaN" using k(1) xs_ok by simp
    have le: "fle x (xs ! k)" using fle_total [OF nk x_ok] k(3) by blast
    have all_le: "\<forall>j < length s. fle (s ! j) (s ! Suc k)"
    proof (intro allI impI)
      fix j assume "j < length s"
      then show "fle (s ! j) (s ! Suc k)"
        using le k(4) s by (cases j) simp_all
    qed
    have before: "\<forall>j < Suc k. \<not> fle (s ! Suc k) (s ! j)"
      using k(3) k(5) s by (auto simp: less_Suc_eq_0_disj)
    have "Suc k < length s \<and> argmax s = Inr (Suc k)"
      using k(1) k(2) am s by simp
    with all_le before show ?thesis by blast
  qed
qed

lemma argmax_loop_nan:
  assumes "mp \<noteq> NaN" and "NaN \<in> set xs"
  shows "\<exists>k < length xs. argmax_loop mp max_ind i xs = i + k \<and> xs ! k = NaN
           \<and> (\<forall>j < k. xs ! j \<noteq> NaN)"
  using assms
proof (induction xs arbitrary: mp max_ind i)
  case Nil
  then show ?case by simp
next
  case (Cons x xs)
  show ?case
  proof (cases "x = NaN")
    case True
    then have "argmax_loop mp max_ind i (x # xs) = i + 0" by (simp add: isnan_def)
    then have "0 < length (x # xs) \<and> argmax_loop mp max_ind i (x # xs) = i + 0
        \<and> (x # xs) ! 0 = NaN \<and> (\<forall>j < (0::nat). (x # xs) ! j \<noteq> NaN)"
      using True by simp
    then show ?thesis by blast
  next
    case False
    then have mem: "NaN \<in> set xs" using Cons.prems(2) by auto
    define mp' where "mp' = (if \<not> fle x mp then x else mp)"
    define ind' where "ind' = (if \<not> fle x mp then i else max_ind)"
    have mp': "mp' \<noteq> NaN" using False Cons.prems(1) by (simp add: mp'_def)
    have step: "argmax_loop mp max_ind i (x # xs) = argmax_loop mp' ind' (Suc i) xs"
      using False by (simp add: mp'_def ind'_def isnan_def)
    from Cons.IH [OF mp' mem, of ind' "Suc i"] obtain k where k: "k < length xs"
      "argmax_loop mp' ind' (Suc i) xs = Suc i + k" "xs ! k = NaN" "\<forall>j < k. xs ! j \<noteq> NaN"
      by blast
    have "\<forall>j < Suc k. (x # xs) ! j \<noteq> NaN"
      using False k(4) by (auto simp: less_Suc_eq_0_disj)
    then have "Suc k < length (x # xs) \<and> argmax_loop mp max_ind i (x # xs) = i + Suc k
        \<and> (x # xs) ! Suc k = NaN \<and> (\<forall>j < Suc k. (x # xs) ! j \<noteq> NaN)"
      using k step by simp
    then show ?thesis by blast
  qed
qed

lemma argmax_nan:
  assumes "NaN \<in> set s"
  shows "\<exists>i < length s. argmax s = Inr i \<and> s ! i = NaN \<and> (\<forall>j < i. s ! j \<noteq> NaN)"
proof -
  from assms obtain x xs where s: "s = x # xs" by (cases s) auto
  show ?thesis
  proof (cases "x = NaN")
    case True
    then have "0 < length s \<and> argmax s = Inr 0 \<and> s ! 0 = NaN \<and> (\<forall>j < (0::nat). s ! j \<noteq> NaN)"
      using s by (simp add: argmax_def isnan_def)
    then show ?thesis by blast
  next
    case False
    then have mem: "NaN \<in> set xs" using assms s by auto
    have am: "argmax s = Inr (argmax_loop x 0 1 xs)"
      using s False by (simp add: argmax_def isnan_def)
    from argmax_loop_nan [OF False mem, of 0 1] obtain k where k: "k < length xs"
      "argmax_loop x 0 1 xs = 1 + k" "xs ! k = NaN" "\<forall>j < k. xs ! j \<noteq> NaN"
      by blast
    have "\<forall>j < Suc k. s ! j \<noteq> NaN"
      using False k(4) s by (auto simp: less_Suc_eq_0_disj)
    then have "Suc k < length s \<and> argmax s = Inr (Suc k) \<and> s ! Suc k = NaN
        \<and> (\<forall>j < Suc k. s ! j \<noteq> NaN)"
      using k am s by simp
    then show ?thesis by blast
  qed
qed

lemma argmax_first_of_its_value:
  assumes "argmax s = Inr i"
  shows "\<forall>j < i. s ! j \<noteq> s ! i"
proof (cases "NaN \<in> set s")
  case True
  from argmax_nan [OF True] assms show ?thesis by auto
next
  case False
  have ne: "s \<noteq> []" using argmax_bound [OF assms] by auto
  have nn: "\<forall>x \<in> set s. x \<noteq> NaN" using False by auto
  from argmax_first_max [OF ne nn] assms
  have il: "i < length s" and before: "\<forall>j < i. \<not> fle (s ! i) (s ! j)" by auto
  have "s ! i \<noteq> NaN" using il nn by simp
  then have "fle (s ! i) (s ! i)" by (rule fle_refl)
  then show ?thesis using before by metis
qed

lemma argmax_map_reordered:
  assumes same: "set ps' = set ps"
    and am: "argmax (map f ps) = Inr i"
    and am': "argmax (map f ps') = Inr i'"
  shows "f (ps' ! i') = f (ps ! i)
       \<and> ((\<forall>j < length ps. f (ps ! j) = f (ps ! i) \<longrightarrow> ps ! j = ps ! i) \<longrightarrow> ps' ! i' = ps ! i)"
proof -
  have il: "i < length ps" using argmax_bound [OF am] by simp
  have il': "i' < length ps'" using argmax_bound [OF am'] by simp
  have eq: "f (ps' ! i') = f (ps ! i)"
  proof (cases "NaN \<in> set (map f ps)")
    case True
    then have True': "NaN \<in> set (map f ps')" using same by simp
    from argmax_nan [OF True] am have "map f ps ! i = NaN" by auto
    moreover from argmax_nan [OF True'] am' have "map f ps' ! i' = NaN" by auto
    ultimately show ?thesis using il il' by simp
  next
    case False
    have ne: "map f ps \<noteq> []" "map f ps' \<noteq> []" using il il' by auto
    have False': "NaN \<notin> set (map f ps')" using False same by simp
    have nn: "\<forall>x \<in> set (map f ps). x \<noteq> NaN" "\<forall>x \<in> set (map f ps'). x \<noteq> NaN"
      using False False' by blast+
    from argmax_first_max [OF ne(1) nn(1)] am
    have top: "\<forall>j < length ps. fle (f (ps ! j)) (f (ps ! i))" by auto
    from argmax_first_max [OF ne(2) nn(2)] am'
    have top': "\<forall>j < length ps'. fle (f (ps' ! j)) (f (ps' ! i'))" by auto
    have "ps' ! i' \<in> set ps" using il' same by (metis nth_mem)
    then obtain j where j: "j < length ps" "ps ! j = ps' ! i'" by (metis in_set_conv_nth)
    have "ps ! i \<in> set ps'" using il same by (metis nth_mem)
    then obtain j' where j': "j' < length ps'" "ps' ! j' = ps ! i" by (metis in_set_conv_nth)
    have le1: "fle (f (ps' ! i')) (f (ps ! i))" using top j by metis
    have le2: "fle (f (ps ! i)) (f (ps' ! i'))" using top' j' by metis
    show ?thesis by (rule fle_antisym [OF le1 le2])
  qed
  have "ps' ! i' \<in> set ps" using il' same by (metis nth_mem)
  then obtain j where j: "j < length ps" "ps ! j = ps' ! i'" by (metis in_set_conv_nth)
  have "(\<forall>j < length ps. f (ps ! j) = f (ps ! i) \<longrightarrow> ps ! j = ps ! i) \<longrightarrow> ps' ! i' = ps ! i"
    using j eq by metis
  with eq show ?thesis by simp
qed

section \<open>The ranking cell, step by step\<close>

lemma matmul_T_single:
  "matmul_T [u] t =
     (if \<forall>v \<in> set t. length v = length u then Inr [map (dot u) t] else Inl ShapeError)"
  by (simp add: matmul_T_def)

lemma print_scores_eq:
  "print_scores ff out ps =
     out @ concat (map (\<lambda>(p, s). score_text ff p s @ [CHR 0x0A]) ps)"
  by (induction ps arbitrary: out) (auto simp: print_def)

lemma ranking_cell_single:
  assumes "\<forall>v \<in> set t. length v = length u"
  shows "ranking_cell ff sf [u] t ps =
     (let sim = map (dot u) t;
          out1 = concat (map (\<lambda>(p, s). score_text ff p s @ [CHR 0x0A]) (zip ps sim)) in
      case argmax sim of
        Inl e \<Rightarrow> (out1, Inl e)
      | Inr idx \<Rightarrow>
          if idx < length ps
          then (out1 @ [CHR 0x0A] @ ''The most similar text prompt to the input image is: ''
                  @ ps ! idx @ [CHR 0x0A] @ ''Similarity score: '' @ sf (sim ! idx) @ [CHR 0x0A],
                Inr \<lparr>similarity = sim, best_match_idx = idx,
                     best_prompt = ps ! idx, best_score = sim ! idx\<rparr>)
          else (out1, Inl IndexError))"
  using assms
  by (auto simp: ranking_cell_def matmul_T_single flatten_def print_scores_eq Let_def index_def
        print_def split: sum.splits dest: argmax_bound)

lemma ranking_cell_result:
  "snd (ranking_cell ff sf [u] t ps) =
     (if \<forall>v \<in> set t. length v = length u
      then (case argmax (map (dot u) t) of
              Inl e \<Rightarrow> Inl e
            | Inr idx \<Rightarrow>
                if idx < length ps
                then Inr \<lparr>similarity = map (dot u) t, best_match_idx = idx,
                          best_prompt = ps ! idx, best_score = map (dot u) t ! idx\<rparr>
                else Inl IndexError)
      else Inl ShapeError)"
proof (cases "\<forall>v \<in> set t. length v = length u")
  case True
  then show ?thesis
    by (simp add: ranking_cell_single [OF True] Let_def split: sum.splits)
next
  case False
  then have "matmul_T [u] t = Inl ShapeError"
    unfolding matmul_T_single by (simp only: if_False)
  with False show ?thesis by (simp only: ranking_cell_def sum.case snd_conv if_False)
qed

lemma ranking_cell_empty:
  "ranking_cell ff sf [u] [] [] = ([], Inl InvalidInputError)"
  by (simp add: ranking_cell_def matmul_T_def flatten_def argmax_def)

lemma ranking_cell_errors:
  "snd (ranking_cell ff sf [u] t ps) = Inl e \<Longrightarrow> e = ShapeError \<or> e = InvalidInputError \<or> e = IndexError"
  by (auto simp: ranking_cell_result split: sum.splits if_splits dest: argmax_Inl)

section \<open>The run as a whole\<close>

lemmas demo_defs = run_all_def demo_world_def demo_model_def requests_get_def Image_open_def
      clip_load_def image_cell_def text_cell_def normalize_def normalize_row_def norm_row_def
      fsum_def ranking_cell_def matmul_T_def dot_def flatten_def argmax_def isnan_def index_def
      print_def score_text_def demo_str_def demo_format_def Let_def

lemma demo_run:
  "run_all demo_world ''u'' [''a photo of a dog'', ''a photo of a cat''] =
     \<lparr>calls = [HttpGet, ImageOpen, ClipLoad, EncodeImage, Tokenize, EncodeText],
      console = ''Prompt: a photo of a dog | Similarity score: 1.0'' @ [CHR 0x0A]
        @ ''Prompt: a photo of a cat | Similarity score: 0.0'' @ [CHR 0x0A]
        @ [CHR 0x0A] @ ''The most similar text prompt to the input image is: a photo of a dog''
        @ [CHR 0x0A] @ ''Similarity score: 1.0'' @ [CHR 0x0A],
      result = Inr \<lparr>similarity = [Fin 1, Fin 0], best_match_idx = 0,
                    best_prompt = ''a photo of a dog'', best_score = Fin 1\<rparr>\<rparr>"
  by (simp add: demo_defs)

lemma clip_tokenize_Inr:
  "clip_tokenize m ps = Inr ks \<Longrightarrow> map (tokenize_one m) ps = map Some ks"
  by (induction ps arbitrary: ks) (auto split: option.splits sum.splits)

lemma clip_tokenize_Inl:
  "clip_tokenize m ps = Inl e \<Longrightarrow> e = ContextLengthError"
  by (induction ps arbitrary: e) (auto split: option.splits sum.splits)

lemma clip_tokenize_nth:
  assumes "clip_tokenize m ps = Inr ks"
  shows "length ks = length ps \<and> (\<forall>i < length ps. tokenize_one m (ps ! i) = Some (ks ! i))"
proof -
  have eq: "map (tokenize_one m) ps = map Some ks" by (rule clip_tokenize_Inr [OF assms])
  then have len: "length ks = length ps" by (metis length_map)
  have "\<forall>i < length ps. tokenize_one m (ps ! i) = Some (ks ! i)"
  proof (intro allI impI)
    fix i assume i: "i < length ps"
    then have "map (tokenize_one m) ps ! i = map Some ks ! i" using eq by simp
    then show "tokenize_one m (ps ! i) = Some (ks ! i)" using i len by simp
  qed
  with len show ?thesis by simp
qed

lemma clip_tokenize_the:
  assumes "clip_tokenize m ps = Inr ks"
  shows "ks = map (\<lambda>p. the (tokenize_one m p)) ps \<and> (\<forall>p \<in> set ps. tokenize_one m p \<noteq> None)"
  using assms
  by (induction ps arbitrary: ks) (auto split: option.splits sum.splits)

lemma clip_tokenize_all:
  assumes "\<forall>p \<in> set ps. tokenize_one m p \<noteq> None"
  shows "clip_tokenize m ps = Inr (map (\<lambda>p. the (tokenize_one m p)) ps)"
  using assms by (induction ps) auto

lemma image_cell_eq: "image_cell m im = [normalize_row (encode_image m (preprocess m im))]"
  by (simp add: image_cell_def normalize_def)

lemma text_cell_Inr:
  "text_cell m ps = Inr t \<Longrightarrow>
     \<exists>ks. clip_tokenize m ps = Inr ks \<and> t = map (\<lambda>k. normalize_row (encode_text m k)) ks"
  by (auto simp: text_cell_def normalize_def split: sum.splits)

lemma run_all_cases:
  obtains (fetch) "net w url = NoResponse"
      "run_all w url ps = \<lparr>calls = [HttpGet], console = [], result = Inl FetchError\<rparr>"
  | (decode) st body where "net w url = Response st body" "decode w body = None"
      "run_all w url ps = \<lparr>calls = [HttpGet, ImageOpen], console = [], result = Inl DecodeError\<rparr>"
  | (load) st body im where "net w url = Response st body" "decode w body = Some im"
      "checkpoints w ''ViT-B/32'' = None"
      "run_all w url ps =
         \<lparr>calls = [HttpGet, ImageOpen, ClipLoad], console = [], result = Inl ModelLoadError\<rparr>"
  | (tokenize) st body im m where "net w url = Response st body" "decode w body = Some im"
      "checkpoints w ''ViT-B/32'' = Some m" "clip_tokenize m ps = Inl ContextLengthError"
      "run_all w url ps =
         \<lparr>calls = [HttpGet, ImageOpen, ClipLoad, EncodeImage, Tokenize], console = [],
          result = Inl ContextLengthError\<rparr>"
  | (rank) st body im m ks where "net w url = Response st body" "decode w body = Some im"
      "checkpoints w ''ViT-B/32'' = Some m" "clip_tokenize m ps = Inr ks"
      "run_all w url ps =
         \<lparr>calls = [HttpGet, ImageOpen, ClipLoad, EncodeImage, Tokenize, EncodeText],
          console = fst (ranking_cell (format_float w) (str_float w)
                      [normalize_row (encode_image m (preprocess m (convert_RGB w im)))]
                      (map (\<lambda>k. normalize_row (encode_text m k)) ks) ps),
          result = snd (ranking_cell (format_float w) (str_float w)
                      [normalize_row (encode_image m (preprocess m (convert_RGB w im)))]
                      (map (\<lambda>k. normalize_row (encode_text m k)) ks) ps)\<rparr>"
proof (cases "net w url")
  case NoResponse
  then show ?thesis using fetch by (simp add: run_all_def requests_get_def)
next
  case (Response st body)
  note net = this
  show ?thesis
  proof (cases "decode w body")
    case None
    then show ?thesis using decode net by (simp add: run_all_def requests_get_def Image_open_def)
  next
    case (Some im)
    note dec = this
    show ?thesis
    proof (cases "checkpoints w ''ViT-B/32''")
      case None
      then show ?thesis using load net dec
        by (simp add: run_all_def requests_get_def Image_open_def clip_load_def)
    next
      case (Some m)
      note ck = this
      show ?thesis
      proof (cases "clip_tokenize m ps")
        case (Inl e)
        then have "clip_tokenize m ps = Inl ContextLengthError"
          using clip_tokenize_Inl by blast
        then show ?thesis using tokenize net dec ck
          by (simp add: run_all_def requests_get_def Image_open_def clip_load_def text_cell_def)
      next
        case (Inr ks)
        then show ?thesis using rank [OF net dec ck Inr] net dec ck
          by (simp add: run_all_def requests_get_def Image_open_def clip_load_def text_cell_def
              image_cell_def normalize_def comp_def split: prod.splits)
      qed
    qed
  qed
qed

lemma run_all_ranked:
  assumes "net w url = Response st body" and "decode w body = Some im"
    and "checkpoints w ''ViT-B/32'' = Some m" and "\<forall>p \<in> set ps. tokenize_one m p \<noteq> None"
  shows "result (run_all w url ps) =
           snd (ranking_cell (format_float w) (str_float w)
                  [normalize_row (encode_image m (preprocess m (convert_RGB w im)))]
                  (map (\<lambda>p. normalize_row (encode_text m (the (tokenize_one m p)))) ps) ps)"
  using assms clip_tokenize_all [OF assms(4)]
  by (simp add: run_all_def requests_get_def Image_open_def clip_load_def text_cell_def
      image_cell_def normalize_def comp_def split: prod.splits)

lemma run_all_status_irrelevant:
  assumes "net w url = Response st body"
  shows "run_all w url ps = run_all (w\<lparr>net := (\<lambda>u. Response 200 body)\<rparr>) url ps"
  using assms
  by (simp add: run_all_def requests_get_def Image_open_def clip_load_def Let_def
      split: option.splits sum.splits)

lemma run_all_FetchError_iff:
  "result (run_all w url ps) = Inl FetchError \<longleftrightarrow> net w url = NoResponse"
proof (cases rule: run_all_cases [of w url ps])
  case (rank st body im m ks)
  then show ?thesis by (auto dest: ranking_cell_errors)
qed simp_all

section \<open>Rows of finite numbers\<close>

lemma fadd_Fin_D: "fadd x y = Fin s \<Longrightarrow> \<exists>a b. x = Fin a \<and> y = Fin b \<and> s = a + b"
  by (cases x; cases y) simp_all

lemma fmul_self_Fin_D: "fmul a a = Fin s \<Longrightarrow> \<exists>x. a = Fin x \<and> s = x * x"
  by (cases a) (simp_all add: inf_of_sign_def)

lemma fsqrt_Fin_D: "fsqrt y = Fin c \<Longrightarrow> \<exists>s. y = Fin s \<and> 0 \<le> s \<and> c = sqrt s"
  by (cases y) (auto split: if_splits)

lemma fsum_Fin: "fsum (map Fin xs) = Fin (sum_list xs)"
  by (induction xs) (simp_all add: fsum_def)

lemma fsum_Fin_D: "fsum ys = Fin s \<Longrightarrow> \<exists>xs. ys = map Fin xs"
proof (induction ys arbitrary: s)
  case Nil
  then show ?case by simp
next
  case (Cons y ys)
  from Cons.prems have "fadd y (fsum ys) = Fin s" by (simp add: fsum_def)
  then obtain a b where ab: "y = Fin a" "fsum ys = Fin b" using fadd_Fin_D by blast
  from Cons.IH [OF ab(2)] obtain xs where "ys = map Fin xs" by blast
  then have "y # ys = map Fin (a # xs)" using ab(1) by simp
  then show ?case by (rule exI)
qed

lemma squares_Fin_D:
  "map (\<lambda>a. fmul a a) r = map Fin qs \<Longrightarrow> \<exists>xs. r = map Fin xs"
proof (induction r arbitrary: qs)
  case Nil
  then show ?case by simp
next
  case (Cons a r)
  then obtain q qs' where qs: "qs = q # qs'" by (cases qs) auto
  have h: "fmul a a = Fin q" "map (\<lambda>a. fmul a a) r = map Fin qs'"
    using Cons.prems qs by simp_all
  obtain x where x: "a = Fin x" using fmul_self_Fin_D [OF h(1)] by blast
  obtain xs where "r = map Fin xs" using Cons.IH [OF h(2)] by blast
  then have "a # r = map Fin (x # xs)" using x by simp
  then show ?case by (rule exI)
qed

lemma sumsq_nonneg: "0 \<le> sumsq xs"
  unfolding sumsq_def by (induction xs) simp_all

lemma sumsq_zero_iff: "sumsq xs = 0 \<longleftrightarrow> (\<forall>x \<in> set xs. x = 0)"
proof (induction xs)
  case Nil
  then show ?case by (simp add: sumsq_def)
next
  case (Cons x xs)
  have "0 \<le> sumsq xs" by (rule sumsq_nonneg)
  moreover have "sumsq (x # xs) = x * x + sumsq xs" by (simp add: sumsq_def)
  moreover have "0 \<le> x * x" by simp
  ultimately have "sumsq (x # xs) = 0 \<longleftrightarrow> x * x = 0 \<and> sumsq xs = 0"
    by (metis add_nonneg_eq_0_iff)
  then show ?case using Cons.IH by simp
qed

lemma norm_row_Fin: "norm_row (map Fin xs) = Fin (sqrt (sumsq xs))"
proof -
  have "map (\<lambda>a. fmul a a) (map Fin xs) = map Fin (map (\<lambda>x. x * x) xs)" by simp
  then have "fsum (map (\<lambda>a. fmul a a) (map Fin xs)) = Fin (sumsq xs)"
    by (simp only: fsum_Fin sumsq_def)
  then show ?thesis using sumsq_nonneg [of xs] by (simp add: norm_row_def)
qed

lemma norm_row_Fin_D:
  assumes "norm_row r = Fin c"
  shows "\<exists>xs. r = map Fin xs \<and> c = sqrt (sumsq xs)"
proof -
  from assms obtain s where "fsum (map (\<lambda>a. fmul a a) r) = Fin s"
    unfolding norm_row_def using fsqrt_Fin_D by blast
  then obtain qs where "map (\<lambda>a. fmul a a) r = map Fin qs" using fsum_Fin_D by blast
  then obtain xs where xs: "r = map Fin xs" using squares_Fin_D by blast
  then have "c = sqrt (sumsq xs)" using assms by (simp add: norm_row_Fin)
  with xs show ?thesis by blast
qed

lemma zero_norm_nan:
  assumes "norm_row r = Fin 0"
  shows "normalize_row r = replicate (length r) NaN"
proof -
  from norm_row_Fin_D [OF assms] obtain xs where xs: "r = map Fin xs" "0 = sqrt (sumsq xs)"
    by blast
  then have "sumsq xs = 0" by simp
  then have z: "\<forall>x \<in> set xs. x = 0" by (simp add: sumsq_zero_iff)
  have "map (\<lambda>a. fdiv a (Fin 0)) (map Fin xs) = replicate (length xs) NaN"
    using z by (induction xs) (simp_all add: inf_of_sign_def)
  then show ?thesis using assms xs(1) by (simp add: normalize_row_def)
qed

section \<open>The Cauchy-Schwarz inequality for paired lists\<close>

lemma cross_term_bound:
  fixes a b s x y :: real
  assumes "s * s \<le> x * y" and "0 \<le> x" and "0 \<le> y"
  shows "2 * (a * b) * s \<le> a * a * y + b * b * x"
proof -
  let ?p = "a * a * y" and ?q = "b * b * x"
  have p: "0 \<le> ?p" and q: "0 \<le> ?q" using assms(2,3) by simp_all
  have "(2 * (a * b) * s)\<^sup>2 = 4 * ((a * a) * (b * b)) * (s * s)"
    by (simp add: power2_eq_square)
  also have "\<dots> \<le> 4 * ((a * a) * (b * b)) * (x * y)"
    using assms(1) by (intro mult_left_mono) simp_all
  also have "\<dots> = 4 * ?p * ?q" by simp
  also have "\<dots> \<le> (?p + ?q)\<^sup>2"
  proof -
    have "0 \<le> (?p - ?q)\<^sup>2" by simp
    then show ?thesis by (simp add: power2_eq_square algebra_simps)
  qed
  finally have sq: "(2 * (a * b) * s)\<^sup>2 \<le> (?p + ?q)\<^sup>2" .
  have "0 \<le> ?p + ?q" using p q by simp
  with sq show ?thesis by (rule power2_le_imp_le)
qed

lemma cauchy_schwarz_zip:
  "(sum_list (map (\<lambda>(a, b). a * b) (zip xs ys)))\<^sup>2 \<le> sumsq xs * sumsq (ys :: real list)"
proof (induction xs arbitrary: ys)
  case Nil
  then show ?case by (simp add: sumsq_nonneg)
next
  case (Cons a xs)
  show ?case
  proof (cases ys)
    case Nil
    then show ?thesis by (simp add: sumsq_def)
  next
    case (Cons b ys')
    let ?s = "sum_list (map (\<lambda>(a, b). a * b) (zip xs ys'))"
    have ih: "?s * ?s \<le> sumsq xs * sumsq ys'"
      using Cons.IH [of ys'] by (simp add: power2_eq_square)
    have cross: "2 * (a * b) * ?s \<le> a * a * sumsq ys' + b * b * sumsq xs"
      by (rule cross_term_bound [OF ih sumsq_nonneg sumsq_nonneg])
    have "(a * b + ?s)\<^sup>2 = (a * a) * (b * b) + 2 * (a * b) * ?s + ?s * ?s"
      by (simp add: power2_eq_square algebra_simps)
    also have "\<dots> \<le> (a * a) * (b * b) + (a * a * sumsq ys' + b * b * sumsq xs)
                      + sumsq xs * sumsq ys'"
      using cross ih by simp
    also have "\<dots> = (a * a + sumsq xs) * (b * b + sumsq ys')"
      by (simp add: algebra_simps)
    finally show ?thesis using Cons by (simp add: sumsq_def)
  qed
qed

lemma dot_Fin:
  "dot (map Fin xs) (map Fin ys) = Fin (sum_list (map (\<lambda>(a, b). a * b) (zip xs ys)))"
proof -
  have "map (\<lambda>(a, b). fmul a b) (zip (map Fin xs) (map Fin ys))
          = map Fin (map (\<lambda>(a, b). a * b) (zip xs ys))"
  proof (induction xs arbitrary: ys)
    case Nil
    then show ?case by simp
  next
    case (Cons a xs)
    then show ?case by (cases ys) simp_all
  qed
  then show ?thesis by (simp only: dot_def fsum_Fin)
qed

lemma unit_dot:
  assumes "norm_row u = Fin 1" and "norm_row v = Fin 1"
  shows "\<exists>s. dot u v = Fin s \<and> - 1 \<le> s \<and> s \<le> 1"
proof -
  from norm_row_Fin_D [OF assms(1)] obtain xs where xs: "u = map Fin xs" "1 = sqrt (sumsq xs)"
    by blast
  from norm_row_Fin_D [OF assms(2)] obtain ys where ys: "v = map Fin ys" "1 = sqrt (sumsq ys)"
    by blast
  have one: "sumsq xs = 1" "sumsq ys = 1"
    using xs(2) ys(2) by (metis real_sqrt_eq_1_iff)+
  let ?s = "sum_list (map (\<lambda>(a, b). a * b) (zip xs ys))"
  have "?s\<^sup>2 \<le> 1" using cauchy_schwarz_zip [of xs ys] one by simp
  then have "\<bar>?s\<bar> \<le> 1" by (simp add: abs_square_le_1)
  then have "- 1 \<le> ?s \<and> ?s \<le> 1" by linarith
  moreover have "dot u v = Fin ?s" unfolding xs(1) ys(1) by (rule dot_Fin)
  ultimately show ?thesis by blast
qed

section \<open>The best match and the scores\<close>

text \<open>
  Claim C1, as stated, fails when a score is NaN: with a text encoder whose output for
  \<open>a photo of a cat\<close> is the zero vector, the scores are 1 and NaN, and the prompt reported
  is the one whose score is NaN, which is not the maximum.
\<close>

theorem nan_score_is_reported:
  "result (run_all partly_zero_world ''u'' [''a photo of a dog'', ''a photo of a cat'']) =
     Inr \<lparr>similarity = [Fin 1, NaN], best_match_idx = 1,
          best_prompt = ''a photo of a cat'', best_score = NaN\<rparr>
   \<and> \<not> fle (Fin 1) NaN"
  by (simp add: partly_zero_world_def partly_zero_model_def demo_defs inf_of_sign_def)

text \<open>
  Claim C1, amended. For a non-empty prompt list, the ranking cell reports the prompt at the
  index chosen by the arg-max. When no score is NaN, that is the index of the maximum dot
  product of the image embedding with the text embeddings, and among several prompts with
  that same maximum score it is the first one in input order: every score is at most the
  reported one, and every score before the reported index is strictly smaller. When some
  score is NaN, the first prompt whose score is NaN is reported.
\<close>

theorem best_match_is_first_maximum:
  assumes "text_prompts \<noteq> []"
    and "length text_features = length text_prompts"
    and "\<forall>t \<in> set text_features. length t = length image_row"
  shows "\<exists>r. snd (ranking_cell ff sf [image_row] text_features text_prompts) = Inr r
           \<and> best_match_idx r < length text_prompts
           \<and> best_prompt r = text_prompts ! best_match_idx r
           \<and> best_score r = dot image_row (text_features ! best_match_idx r)
           \<and> ((\<forall>t \<in> set text_features. dot image_row t \<noteq> NaN) \<longrightarrow>
                (\<forall>j < length text_prompts.
                    fle (dot image_row (text_features ! j)) (best_score r))
                \<and> (\<forall>j < best_match_idx r.
                      flt (dot image_row (text_features ! j)) (best_score r)))
           \<and> ((\<exists>t \<in> set text_features. dot image_row t = NaN) \<longrightarrow>
                best_score r = NaN
                \<and> (\<forall>j < best_match_idx r. dot image_row (text_features ! j) \<noteq> NaN))"
proof -
  let ?sim = "map (dot image_row) text_features"
  have ne: "?sim \<noteq> []" using assms(1,2) by auto
  from argmax_nonempty [OF ne] obtain i where am: "argmax ?sim = Inr i" by blast
  have i: "i < length ?sim" by (rule argmax_bound [OF am])
  have il: "i < length text_prompts" using i assms(2) by simp
  let ?r = "\<lparr>similarity = ?sim, best_match_idx = i,
             best_prompt = text_prompts ! i, best_score = ?sim ! i\<rparr>"
  have res: "snd (ranking_cell ff sf [image_row] text_features text_prompts) = Inr ?r"
    using am il by (simp add: ranking_cell_single [OF assms(3)] Let_def)
  have sc: "?sim ! i = dot image_row (text_features ! i)" using i by simp
  have numbers: "(\<forall>t \<in> set text_features. dot image_row t \<noteq> NaN) \<longrightarrow>
      (\<forall>j < length text_prompts.
          fle (dot image_row (text_features ! j)) (dot image_row (text_features ! i)))
      \<and> (\<forall>j < i. flt (dot image_row (text_features ! j)) (dot image_row (text_features ! i)))"
  proof
    assume "\<forall>t \<in> set text_features. dot image_row t \<noteq> NaN"
    then have nn: "\<forall>x \<in> set ?sim. x \<noteq> NaN" by simp
    from argmax_first_max [OF ne nn] am
    have top: "\<forall>j < length ?sim. fle (?sim ! j) (?sim ! i)"
      and before: "\<forall>j < i. \<not> fle (?sim ! i) (?sim ! j)"
      by auto
    have a: "\<forall>j < length text_prompts.
               fle (dot image_row (text_features ! j)) (dot image_row (text_features ! i))"
      using top i assms(2) by simp
    have b: "\<forall>j < i. flt (dot image_row (text_features ! j)) (dot image_row (text_features ! i))"
    proof (intro allI impI)
      fix j assume j: "j < i"
      then have jl: "j < length ?sim" using i by simp
      have "fle (?sim ! j) (?sim ! i)" using top jl by blast
      moreover have "\<not> fle (?sim ! i) (?sim ! j)" using before j by blast
      ultimately show "flt (dot image_row (text_features ! j)) (dot image_row (text_features ! i))"
        using jl i by (simp add: flt_def)
    qed
    from a b show "(\<forall>j < length text_prompts.
          fle (dot image_row (text_features ! j)) (dot image_row (text_features ! i)))
      \<and> (\<forall>j < i. flt (dot image_row (text_features ! j)) (dot image_row (text_features ! i)))"
      by simp
  qed
  have nans: "(\<exists>t \<in> set text_features. dot image_row t = NaN) \<longrightarrow>
      dot image_row (text_features ! i) = NaN
      \<and> (\<forall>j < i. dot image_row (text_features ! j) \<noteq> NaN)"
  proof
    assume "\<exists>t \<in> set text_features. dot image_row t = NaN"
    then have mem: "NaN \<in> set ?sim" by force
    from argmax_nan [OF mem] am
    have "?sim ! i = NaN" and "\<forall>j < i. ?sim ! j \<noteq> NaN" by auto
    then show "dot image_row (text_features ! i) = NaN
        \<and> (\<forall>j < i. dot image_row (text_features ! j) \<noteq> NaN)"
      using i by simp
  qed
  show ?thesis
    using res il sc numbers nans by (intro exI [of _ ?r]) simp
qed

theorem best_match_is_first_maximum_witness:
  "(\<exists>r. snd (ranking_cell demo_format demo_str [[Fin 1, Fin 0]]
               [[Fin 0, Fin 1], [Fin 1, Fin 0], [Fin 1, Fin 0]]
               [''a photo of a cat'', ''a photo of a dog'', ''a photo of a puppy'']) = Inr r
      \<and> best_match_idx r = 1 \<and> best_prompt r = ''a photo of a dog'' \<and> best_score r = Fin 1)
   \<and> (\<exists>r. snd (ranking_cell demo_format demo_str [[Fin 1, Fin 0]]
               [[Fin 1, Fin 0], [NaN, NaN], [NaN, NaN]]
               [''a photo of a dog'', ''a photo of a cat'', ''a photo of a bird'']) = Inr r
      \<and> best_match_idx r = 1 \<and> best_prompt r = ''a photo of a cat'' \<and> best_score r = NaN)"
proof -
  let ?ps = "[''a photo of a cat'', ''a photo of a dog'', ''a photo of a puppy'']"
  let ?ts = "[[Fin 0, Fin 1], [Fin 1, Fin 0], [Fin 1, Fin 0]]"
  let ?qs = "[''a photo of a dog'', ''a photo of a cat'', ''a photo of a bird'']"
  let ?us = "[[Fin 1, Fin 0], [NaN, NaN], [NaN, NaN]]"
  have h1: "?ps \<noteq> []" by simp
  have h2: "length ?ts = length ?ps" by simp
  have h3: "\<forall>t \<in> set ?ts. length t = length [Fin 1, Fin 0]" by simp
  have h4: "\<forall>t \<in> set ?ts. dot [Fin 1, Fin 0] t \<noteq> NaN" by (simp add: dot_def fsum_def)
  have g1: "?qs \<noteq> []" by simp
  have g2: "length ?us = length ?qs" by simp
  have g3: "\<forall>t \<in> set ?us. length t = length [Fin 1, Fin 0]" by simp
  have g4: "\<exists>t \<in> set ?us. dot [Fin 1, Fin 0] t = NaN" by (simp add: dot_def fsum_def)
  from best_match_is_first_maximum [OF h1 h2 h3, of demo_format demo_str] h4
  have a: "\<exists>r. snd (ranking_cell demo_format demo_str [[Fin 1, Fin 0]] ?ts ?ps) = Inr r
      \<and> best_match_idx r = 1 \<and> best_prompt r = ''a photo of a dog'' \<and> best_score r = Fin 1"
    by (simp add: ranking_cell_def matmul_T_def dot_def fsum_def flatten_def argmax_def
        isnan_def index_def Let_def)
  from best_match_is_first_maximum [OF g1 g2 g3, of demo_format demo_str] g4
  have b: "\<exists>r. snd (ranking_cell demo_format demo_str [[Fin 1, Fin 0]] ?us ?qs) = Inr r
      \<and> best_match_idx r = 1 \<and> best_prompt r = ''a photo of a cat'' \<and> best_score r = NaN"
    by (simp add: ranking_cell_def matmul_T_def dot_def fsum_def flatten_def argmax_def
        isnan_def index_def Let_def)
  from a b show ?thesis by simp
qed

text \<open>
  Claim C2. A run that reaches its end has computed one similarity score for each prompt,
  in the order of the prompts: score \<open>i\<close> is the dot product of the normalized image
  features with the normalized text features of prompt \<open>i\<close>.
\<close>

theorem scores_match_prompts:
  assumes "result (run_all w url text_prompts) = Inr r"
  shows "length (similarity r) = length text_prompts
       \<and> (\<exists>st body im m. net w url = Response st body \<and> decode w body = Some im
             \<and> checkpoints w ''ViT-B/32'' = Some m
             \<and> (\<forall>i < length text_prompts. \<exists>k. tokenize_one m (text_prompts ! i) = Some k
                   \<and> similarity r ! i =
                       dot (normalize_row (encode_image m (preprocess m (convert_RGB w im))))
                           (normalize_row (encode_text m k))))"
proof (cases rule: run_all_cases [of w url text_prompts])
  case (rank st body im m ks)
  let ?u = "normalize_row (encode_image m (preprocess m (convert_RGB w im)))"
  let ?t = "map (\<lambda>k. normalize_row (encode_text m k)) ks"
  have tok: "length ks = length text_prompts"
    "\<forall>i < length text_prompts. tokenize_one m (text_prompts ! i) = Some (ks ! i)"
    using clip_tokenize_nth [OF rank(4)] by simp_all
  have "snd (ranking_cell (format_float w) (str_float w) [?u] ?t text_prompts) = Inr r"
    using assms rank(5) by simp
  then have sim: "similarity r = map (dot ?u) ?t"
    by (auto simp: ranking_cell_result split: if_splits sum.splits)
  have "\<forall>i < length text_prompts. \<exists>k. tokenize_one m (text_prompts ! i) = Some k
          \<and> similarity r ! i = dot ?u (normalize_row (encode_text m k))"
    using tok sim by simp
  then show ?thesis using rank(1-3) tok(1) sim by auto
qed (use assms in simp_all)

theorem scores_match_prompts_witness:
  "length [Fin 1, Fin 0] = length [''a photo of a dog'', ''a photo of a cat'']
   \<and> (\<exists>st body im m. net demo_world ''u'' = Response st body \<and> decode demo_world body = Some im
         \<and> checkpoints demo_world ''ViT-B/32'' = Some m
         \<and> (\<forall>i < length [''a photo of a dog'', ''a photo of a cat''].
               \<exists>k. tokenize_one m ([''a photo of a dog'', ''a photo of a cat''] ! i) = Some k
               \<and> [Fin 1, Fin 0] ! i =
                   dot (normalize_row (encode_image m (preprocess m (convert_RGB demo_world im))))
                       (normalize_row (encode_text m k))))"
proof -
  have run: "result (run_all demo_world ''u'' [''a photo of a dog'', ''a photo of a cat'']) =
      Inr \<lparr>similarity = [Fin 1, Fin 0], best_match_idx = 0,
           best_prompt = ''a photo of a dog'', best_score = Fin 1\<rparr>"
    by (simp add: demo_run)
  from scores_match_prompts [OF run] show ?thesis by simp
qed

section \<open>The empty prompt list\<close>

text \<open>
  Claim C3. With an empty prompt list the run fails and prints no score. When the image is
  fetched and decoded and the model is loaded, the failure is the InvalidInputError of the
  arg-max over the empty score array.
\<close>

theorem empty_prompt_list_fails:
  "console (run_all w url []) = []
   \<and> (\<exists>e. result (run_all w url []) = Inl e)
   \<and> (net w url = Response st body \<and> decode w body = Some im
        \<and> checkpoints w ''ViT-B/32'' = Some m
      \<longrightarrow> result (run_all w url []) = Inl InvalidInputError)"
proof (cases rule: run_all_cases [of w url "[]"])
  case (rank st' body' im' m' ks)
  have ks: "ks = []" using rank(4) by simp
  show ?thesis
    using ks by (simp add: rank(5) ranking_cell_empty)
qed auto

theorem empty_prompt_list_fails_witness:
  "result (run_all demo_world ''u'' []) = Inl InvalidInputError"
proof -
  have h: "net demo_world ''u'' = Response 200 ''bytes'' \<and> decode demo_world ''bytes'' = Some 0
      \<and> checkpoints demo_world ''ViT-B/32'' = Some demo_model"
    by (simp add: demo_world_def)
  from empty_prompt_list_fails [of demo_world "''u''" 200 "''bytes''" 0 demo_model] h
  show ?thesis by blast
qed

section \<open>Normalization\<close>

text \<open>
  Claim C5, as stated, fails: for a text encoder whose output is the zero vector the
  division is carried out, the features are NaN and the run reaches its end, with NaN as
  the best score.
\<close>

theorem zero_norm_is_not_an_error:
  "norm_row (encode_text zero_model ''a photo of a dog'') = Fin 0
   \<and> text_cell zero_model [''a photo of a dog''] = Inr [[NaN, NaN]]
   \<and> result (run_all zero_world ''u'' [''a photo of a dog'']) =
       Inr \<lparr>similarity = [NaN], best_match_idx = 0,
            best_prompt = ''a photo of a dog'', best_score = NaN\<rparr>"
  by (simp add: zero_world_def zero_model_def demo_defs inf_of_sign_def)

text \<open>
  Claim C5, amended. When the norm of a row is exactly zero, normalization does not fail: it
  returns a row of the same length whose elements are all NaN. No run ends with a
  NormalizationError.
\<close>

theorem zero_norm_gives_nan:
  "(norm_row r = Fin 0 \<longrightarrow> normalize_row r = replicate (length r) NaN)
   \<and> result (run_all w url ps) \<noteq> Inl NormalizationError"
proof
  show "norm_row r = Fin 0 \<longrightarrow> normalize_row r = replicate (length r) NaN"
    by (simp add: zero_norm_nan)
  show "result (run_all w url ps) \<noteq> Inl NormalizationError"
  proof (cases rule: run_all_cases [of w url ps])
    case (rank st body im m ks)
    then show ?thesis by (auto dest: ranking_cell_errors)
  qed simp_all
qed

theorem zero_norm_gives_nan_witness:
  "normalize_row [Fin 0, Fin 0, Fin 0] = [NaN, NaN, NaN]
   \<and> result (run_all zero_world ''u'' [''a photo of a dog'']) \<noteq> Inl NormalizationError"
proof -
  have h: "norm_row [Fin 0, Fin 0, Fin 0] = Fin 0"
    by (simp add: norm_row_def fsum_def)
  from zero_norm_gives_nan [of "[Fin 0, Fin 0, Fin 0]" zero_world "''u''" "[''a photo of a dog'']"] h
  show ?thesis by (simp add: numeral_3_eq_3)
qed

text \<open>
  Claim C6. The dot product of two rows of Euclidean norm 1 is a finite number between -1
  and 1.
\<close>

theorem unit_dot_in_range:
  assumes "norm_row u = Fin 1" and "norm_row v = Fin 1"
  shows "\<exists>s. dot u v = Fin s \<and> - 1 \<le> s \<and> s \<le> 1"
  using assms by (rule unit_dot)

theorem unit_dot_in_range_witness:
  "\<exists>s. dot [Fin 1, Fin 0] [Fin 0, Fin 1] = Fin s \<and> - 1 \<le> s \<and> s \<le> 1"
proof -
  have h1: "norm_row [Fin 1, Fin 0] = Fin 1" by (simp add: norm_row_def fsum_def)
  have h2: "norm_row [Fin 0, Fin 1] = Fin 1" by (simp add: norm_row_def fsum_def)
  show ?thesis by (rule unit_dot_in_range [OF h1 h2])
qed

section \<open>Failure of the image request\<close>

text \<open>
  Claim C7, as stated, fails for a response whose status is not 200: \<open>requests.get\<close>
  returns it and the notebook never looks at the status. With an error page as body the run
  ends with the DecodeError of \<open>Image.open\<close>; with a decodable body it runs to its end.
\<close>

theorem non_200_is_not_a_fetch_error:
  "net not_found_world ''u'' = Response 404 ''<html>Not Found</html>''
   \<and> run_all not_found_world ''u'' [''a photo of a dog'', ''a photo of a cat''] =
       \<lparr>calls = [HttpGet, ImageOpen], console = [], result = Inl DecodeError\<rparr>
   \<and> net placeholder_world ''u'' = Response 404 ''bytes''
   \<and> result (run_all placeholder_world ''u'' [''a photo of a dog'', ''a photo of a cat'']) =
       Inr \<lparr>similarity = [Fin 1, Fin 0], best_match_idx = 0,
            best_prompt = ''a photo of a dog'', best_score = Fin 1\<rparr>"
  by (simp add: not_found_world_def placeholder_world_def demo_defs)

text \<open>
  Claim C7, amended. When no response is obtained, the run fails with FetchError and the
  request is the only call made: nothing is encoded. When a response is obtained, whatever
  its status code, the run does not fail with FetchError and is the run for status 200
  with the same body.
\<close>

theorem fetch_failure:
  "(net w url = NoResponse \<longrightarrow>
      result (run_all w url ps) = Inl FetchError \<and> calls (run_all w url ps) = [HttpGet])
   \<and> (net w url = Response st body \<longrightarrow>
        result (run_all w url ps) \<noteq> Inl FetchError
        \<and> run_all w url ps = run_all (w\<lparr>net := (\<lambda>u. Response 200 body)\<rparr>) url ps)"
proof (intro conjI impI)
  assume "net w url = NoResponse"
  then show "result (run_all w url ps) = Inl FetchError" "calls (run_all w url ps) = [HttpGet]"
    by (simp_all add: run_all_def requests_get_def)
next
  assume r: "net w url = Response st body"
  then show "result (run_all w url ps) \<noteq> Inl FetchError"
    by (simp add: run_all_FetchError_iff)
  show "run_all w url ps = run_all (w\<lparr>net := (\<lambda>u. Response 200 body)\<rparr>) url ps"
    by (rule run_all_status_irrelevant [OF r])
qed

theorem fetch_failure_witness:
  "result (run_all offline_world ''u'' [''a photo of a dog'']) = Inl FetchError
   \<and> calls (run_all offline_world ''u'' [''a photo of a dog'']) = [HttpGet]
   \<and> result (run_all placeholder_world ''u'' [''a photo of a dog'']) \<noteq> Inl FetchError"
proof -
  have h1: "net offline_world ''u'' = NoResponse"
    by (simp add: offline_world_def)
  have h2: "net placeholder_world ''u'' = Response 404 ''bytes''"
    by (simp add: placeholder_world_def)
  from fetch_failure [of offline_world "''u''" "[''a photo of a dog'']" 0 "[]"]
       fetch_failure [of placeholder_world "''u''" "[''a photo of a dog'']" 404 "''bytes''"]
       h1 h2
  show ?thesis by blast
qed

section \<open>What is printed and shown\<close>

text \<open>
  Claim C8, as stated, fails in its last part: the lines of the ranking cell are not the only
  output. A successful run also shows the device name, what the installation writes, and the
  image (and what the loading of the model writes, here nothing).
\<close>

theorem other_outputs_are_shown:
  "result (run_all demo_world ''u'' [''a photo of a dog'', ''a photo of a cat'']) =
     Inr \<lparr>similarity = [Fin 1, Fin 0], best_match_idx = 0,
          best_prompt = ''a photo of a dog'', best_score = Fin 1\<rparr>
   \<and> cell_outputs demo_world ''u'' [''a photo of a dog'', ''a photo of a cat''] =
       [ValueShown ([CHR 0x27] @ ''cpu'' @ [CHR 0x27]),
        StreamShown ''Successfully installed clip-1.0'',
        ImageShown 0,
        StreamShown (''Prompt: a photo of a dog | Similarity score: 1.0'' @ [CHR 0x0A]
          @ ''Prompt: a photo of a cat | Similarity score: 0.0'' @ [CHR 0x0A]
          @ [CHR 0x0A] @ ''The most similar text prompt to the input image is: a photo of a dog''
          @ [CHR 0x0A] @ ''Similarity score: 1.0'' @ [CHR 0x0A])]"
  by (simp add: cell_outputs_def device_def repr_str_def demo_defs)

text \<open>
  Claim C8, amended. On success the text written by \<open>print\<close> is, for each prompt in input
  order, one line \<open>Prompt: {prompt} | Similarity score: {score}\<close> with the score rendered by
  \<open>format\<close>, then an empty line, the line naming the best prompt, and the line with its score
  rendered by \<open>str\<close>; there is one score line for each prompt. This text is not the only
  output: before it the notebook shows the device name, what the installation writes, the
  image, and what the loading of the model writes, if anything.
\<close>

theorem console_format:
  assumes "result (run_all w url text_prompts) = Inr r"
  shows "console (run_all w url text_prompts) =
           concat (map (\<lambda>(prompt, score).
                      ''Prompt: '' @ prompt @ '' | Similarity score: '' @ format_float w score
                        @ [CHR 0x0A])
                    (zip text_prompts (similarity r)))
           @ [CHR 0x0A] @ ''The most similar text prompt to the input image is: ''
           @ best_prompt r @ [CHR 0x0A]
           @ ''Similarity score: '' @ str_float w (best_score r) @ [CHR 0x0A]
       \<and> length (zip text_prompts (similarity r)) = length text_prompts
       \<and> (\<exists>st body im. net w url = Response st body \<and> decode w body = Some im
             \<and> cell_outputs w url text_prompts =
                 [ValueShown (repr_str (device w)), StreamShown (pip_output w),
                  ImageShown (convert_RGB w im)]
                 @ (if load_output w = [] then [] else [StreamShown (load_output w)])
                 @ [StreamShown (console (run_all w url text_prompts))])"
proof (cases rule: run_all_cases [of w url text_prompts])
  case (rank st body im m ks)
  let ?u = "normalize_row (encode_image m (preprocess m (convert_RGB w im)))"
  let ?t = "map (\<lambda>k. normalize_row (encode_text m k)) ks"
  let ?out = "concat (map (\<lambda>(prompt, score).
                      ''Prompt: '' @ prompt @ '' | Similarity score: '' @ format_float w score
                        @ [CHR 0x0A])
                    (zip text_prompts (similarity r)))
           @ [CHR 0x0A] @ ''The most similar text prompt to the input image is: ''
           @ best_prompt r @ [CHR 0x0A]
           @ ''Similarity score: '' @ str_float w (best_score r) @ [CHR 0x0A]"
  have len: "length ks = length text_prompts"
    using clip_tokenize_nth [OF rank(4)] by simp
  have res: "snd (ranking_cell (format_float w) (str_float w) [?u] ?t text_prompts) = Inr r"
    using assms rank(5) by simp
  then have shape: "\<forall>v \<in> set ?t. length v = length ?u"
    by (auto simp: ranking_cell_result split: if_splits)
  from res obtain idx where idx: "argmax (map (dot ?u) ?t) = Inr idx" "idx < length text_prompts"
    "r = \<lparr>similarity = map (dot ?u) ?t, best_match_idx = idx,
          best_prompt = text_prompts ! idx, best_score = map (dot ?u) ?t ! idx\<rparr>"
    by (auto simp: ranking_cell_result split: if_splits sum.splits)
  have "console (run_all w url text_prompts)
          = fst (ranking_cell (format_float w) (str_float w) [?u] ?t text_prompts)"
    using rank(5) by simp
  then have con: "console (run_all w url text_prompts) = ?out"
    using idx len by (simp add: ranking_cell_single [OF shape] Let_def score_text_def)
  then have nonempty: "console (run_all w url text_prompts) \<noteq> []" by simp
  have zl: "length (zip text_prompts (similarity r)) = length text_prompts"
    using idx(3) len by simp
  have "cell_outputs w url text_prompts =
          [ValueShown (repr_str (device w)), StreamShown (pip_output w),
           ImageShown (convert_RGB w im)]
          @ (if load_output w = [] then [] else [StreamShown (load_output w)])
          @ [StreamShown (console (run_all w url text_prompts))]"
    using nonempty assms rank(1,2)
    by (simp add: cell_outputs_def requests_get_def Image_open_def Let_def)
  then show ?thesis using con zl rank(1,2) by blast
qed (use assms in simp_all)

theorem console_format_witness:
  "console (run_all slanted_world ''u'' [''a photo of a dog'', ''a photo of a cat'']) =
     ''Prompt: a photo of a dog | Similarity score: 0.9599999785423279'' @ [CHR 0x0A]
     @ ''Prompt: a photo of a cat | Similarity score: 0.800000011920929'' @ [CHR 0x0A]
     @ [CHR 0x0A] @ ''The most similar text prompt to the input image is: a photo of a dog''
     @ [CHR 0x0A] @ ''Similarity score: 0.96'' @ [CHR 0x0A]
   \<and> (\<exists>st body im. net slanted_world ''u'' = Response st body
         \<and> decode slanted_world body = Some im
         \<and> cell_outputs slanted_world ''u'' [''a photo of a dog'', ''a photo of a cat''] =
             [ValueShown (repr_str (device slanted_world)),
              StreamShown (pip_output slanted_world),
              ImageShown (convert_RGB slanted_world im),
              StreamShown
                (console (run_all slanted_world ''u'' [''a photo of a dog'', ''a photo of a cat'']))])"
proof -
  have run: "result (run_all slanted_world ''u'' [''a photo of a dog'', ''a photo of a cat'']) =
      Inr \<lparr>similarity = [Fin (24 / 25), Fin (4 / 5)], best_match_idx = 0,
           best_prompt = ''a photo of a dog'', best_score = Fin (24 / 25)\<rparr>"
    by (simp add: slanted_world_def slanted_model_def demo_defs)
  from console_format [OF run] show ?thesis
    by (simp add: slanted_world_def demo_world_def demo_str_def demo_format_def)
qed

section \<open>Reordering the prompts\<close>

text \<open>
  Claim C9, as stated, fails when two different prompts attain the maximum score: the first
  of them in input order is reported, so exchanging them changes the best match.
\<close>

theorem tie_depends_on_order:
  "mset [''a photo of a bird'', ''a photo of a cat'']
     = mset [''a photo of a cat'', ''a photo of a bird'']
   \<and> result (run_all demo_world ''u'' [''a photo of a cat'', ''a photo of a bird'']) =
       Inr \<lparr>similarity = [Fin 0, Fin 0], best_match_idx = 0,
            best_prompt = ''a photo of a cat'', best_score = Fin 0\<rparr>
   \<and> result (run_all demo_world ''u'' [''a photo of a bird'', ''a photo of a cat'']) =
       Inr \<lparr>similarity = [Fin 0, Fin 0], best_match_idx = 0,
            best_prompt = ''a photo of a bird'', best_score = Fin 0\<rparr>"
  by (simp add: add_mset_commute demo_defs)

text \<open>
  Claim C9, amended. Let the prompts be permuted, the image and the model being the same. If
  the run on the original list reaches its end, so does the run on the permuted list, with
  the same best score; and when every prompt that attains the best score is the reported
  one, the same prompt is reported. Among the prompts that attain the best score, the one
  reported is the first in the list: no earlier prompt has that score. So the order decides
  between different prompts that tie.
\<close>

theorem best_match_under_permutation:
  assumes perm: "mset text_prompts' = mset text_prompts"
    and run: "result (run_all w url text_prompts) = Inr r"
  shows "\<exists>r'. result (run_all w url text_prompts') = Inr r'
           \<and> best_score r' = best_score r
           \<and> ((\<forall>i < length text_prompts.
                   similarity r ! i = best_score r \<longrightarrow> text_prompts ! i = best_prompt r)
                \<longrightarrow> best_prompt r' = best_prompt r)
           \<and> best_match_idx r' < length text_prompts'
           \<and> best_prompt r' = text_prompts' ! best_match_idx r'
           \<and> similarity r' ! best_match_idx r' = best_score r'
           \<and> (\<forall>j < best_match_idx r'. similarity r' ! j \<noteq> best_score r')"
proof (cases rule: run_all_cases [of w url text_prompts])
  case (rank st body im m ks)
  let ?ps = text_prompts and ?ps' = text_prompts'
  let ?u = "normalize_row (encode_image m (preprocess m (convert_RGB w im)))"
  let ?g = "\<lambda>p. normalize_row (encode_text m (the (tokenize_one m p)))"
  let ?f = "\<lambda>p. dot ?u (?g p)"
  have same: "set ?ps' = set ?ps" using perm by (rule mset_eq_setD)
  have tok: "\<forall>p \<in> set ?ps. tokenize_one m p \<noteq> None"
    using clip_tokenize_the [OF rank(4)] by simp
  have tok': "\<forall>p \<in> set ?ps'. tokenize_one m p \<noteq> None" using tok same by simp
  have res: "snd (ranking_cell (format_float w) (str_float w) [?u] (map ?g ?ps) ?ps) = Inr r"
    using run run_all_ranked [OF rank(1-3) tok] by simp
  have mapf: "\<And>qs. map (dot ?u) (map ?g qs) = map ?f qs" by simp
  from res have shape: "\<forall>v \<in> set (map ?g ?ps). length v = length ?u"
    by (auto simp: ranking_cell_result split: if_splits)
  from res obtain i where i: "argmax (map ?f ?ps) = Inr i" "i < length ?ps"
    "r = \<lparr>similarity = map ?f ?ps, best_match_idx = i,
          best_prompt = ?ps ! i, best_score = map ?f ?ps ! i\<rparr>"
    unfolding ranking_cell_result mapf by (auto split: if_splits sum.splits)
  have shape': "\<forall>v \<in> set (map ?g ?ps'). length v = length ?u" using shape same by simp
  have "?ps' \<noteq> []" using i(2) same by auto
  then obtain i' where i': "argmax (map ?f ?ps') = Inr i'"
    using argmax_nonempty [of "map ?f ?ps'"] by auto
  have il': "i' < length ?ps'" using argmax_bound [OF i'] by simp
  let ?r' = "\<lparr>similarity = map ?f ?ps', best_match_idx = i',
              best_prompt = ?ps' ! i', best_score = map ?f ?ps' ! i'\<rparr>"
  have "snd (ranking_cell (format_float w) (str_float w) [?u] (map ?g ?ps') ?ps') = Inr ?r'"
    unfolding ranking_cell_result mapf using shape' i' il' by simp
  then have res': "result (run_all w url ?ps') = Inr ?r'"
    using run_all_ranked [OF rank(1-3) tok'] by simp
  from argmax_map_reordered [OF same i(1) i']
  have key: "?f (?ps' ! i') = ?f (?ps ! i)"
    "(\<forall>j < length ?ps. ?f (?ps ! j) = ?f (?ps ! i) \<longrightarrow> ?ps ! j = ?ps ! i) \<longrightarrow> ?ps' ! i' = ?ps ! i"
    by blast+
  have bs: "best_score ?r' = best_score r" using key(1) i(2,3) il' by simp
  have bp: "(\<forall>j < length ?ps. similarity r ! j = best_score r \<longrightarrow> ?ps ! j = best_prompt r)
              \<longrightarrow> best_prompt ?r' = best_prompt r"
    using key(2) i(2,3) by simp
  have first: "\<forall>j < best_match_idx ?r'. similarity ?r' ! j \<noteq> best_score ?r'"
    using argmax_first_of_its_value [OF i'] by simp
  have here: "best_match_idx ?r' < length ?ps'" "best_prompt ?r' = ?ps' ! best_match_idx ?r'"
    "similarity ?r' ! best_match_idx ?r' = best_score ?r'"
    using il' by simp_all
  show ?thesis using res' bs bp first here by blast
qed (use run in simp_all)

theorem best_match_under_permutation_witness:
  "\<exists>r'. result (run_all demo_world ''u'' [''a photo of a cat'', ''a photo of a dog'']) = Inr r'
     \<and> best_score r' = Fin 1 \<and> best_prompt r' = ''a photo of a dog''"
proof -
  let ?r = "\<lparr>similarity = [Fin 1, Fin 0], best_match_idx = 0,
             best_prompt = ''a photo of a dog'', best_score = Fin 1\<rparr>"
  have h1: "mset [''a photo of a cat'', ''a photo of a dog'']
              = mset [''a photo of a dog'', ''a photo of a cat'']"
    by (simp add: add_mset_commute)
  have h2: "result (run_all demo_world ''u'' [''a photo of a dog'', ''a photo of a cat'']) = Inr ?r"
    by (simp add: demo_run)
  have h3: "\<forall>i < length [''a photo of a dog'', ''a photo of a cat''].
      similarity ?r ! i = best_score ?r \<longrightarrow>
      [''a photo of a dog'', ''a photo of a cat''] ! i = best_prompt ?r"
    by (simp add: less_Suc_eq)
  from best_match_under_permutation [OF h1 h2] h3
  show ?thesis by auto
qed

section \<open>The lookup of the best prompt\<close>

text \<open>
  Claim C10. The index chosen by the arg-max is smaller than the number of prompts: the score
  list has as many entries as the prompt list, so no run ends with an index out of range.
  For a non-empty prompt list with one row of text features for each prompt, the arg-max
  does choose an index, and the lookup of the prompt at that index succeeds.
\<close>

theorem lookup_in_bounds:
  "result (run_all w url text_prompts) \<noteq> Inl IndexError
   \<and> (\<forall>r. result (run_all w url text_prompts) = Inr r \<longrightarrow>
          length (similarity r) = length text_prompts
          \<and> argmax (similarity r) = Inr (best_match_idx r)
          \<and> best_match_idx r < length text_prompts)
   \<and> (text_prompts \<noteq> [] \<and> length text_features = length text_prompts \<longrightarrow>
        (\<exists>i < length text_prompts.
            argmax (map (dot image_row) text_features) = Inr i
            \<and> index text_prompts i = Inr (text_prompts ! i)))"
proof (intro conjI impI)
  show "result (run_all w url text_prompts) \<noteq> Inl IndexError"
  proof (cases rule: run_all_cases [of w url text_prompts])
    case (rank st body im m ks)
    have len: "length ks = length text_prompts"
      using clip_tokenize_nth [OF rank(4)] by simp
    show ?thesis
      using len
      by (auto simp: rank(5) ranking_cell_result split: sum.splits if_splits
          dest: argmax_bound argmax_Inl)
  qed simp_all
next
  show "\<forall>r. result (run_all w url text_prompts) = Inr r \<longrightarrow>
          length (similarity r) = length text_prompts
          \<and> argmax (similarity r) = Inr (best_match_idx r)
          \<and> best_match_idx r < length text_prompts"
  proof (cases rule: run_all_cases [of w url text_prompts])
    case (rank st body im m ks)
    have len: "length ks = length text_prompts"
      using clip_tokenize_nth [OF rank(4)] by simp
    show ?thesis
      using len
      by (auto simp: rank(5) ranking_cell_result split: sum.splits if_splits
          dest: argmax_bound)
  qed simp_all
next
  assume h: "text_prompts \<noteq> [] \<and> length text_features = length text_prompts"
  then have "map (dot image_row) text_features \<noteq> []" by auto
  then obtain i where i: "argmax (map (dot image_row) text_features) = Inr i"
    using argmax_nonempty by blast
  have "i < length text_prompts" using argmax_bound [OF i] h by simp
  then show "\<exists>i < length text_prompts.
      argmax (map (dot image_row) text_features) = Inr i
      \<and> index text_prompts i = Inr (text_prompts ! i)"
    using i by (auto simp: index_def)
qed

theorem lookup_in_bounds_witness:
  "result (run_all demo_world ''u'' [''a photo of a dog'', ''a photo of a cat'']) =
     Inr \<lparr>similarity = [Fin 1, Fin 0], best_match_idx = 0,
          best_prompt = ''a photo of a dog'', best_score = Fin 1\<rparr>
   \<and> (0::nat) < length [''a photo of a dog'', ''a photo of a cat'']
   \<and> (\<exists>i < length [''a photo of a dog'', ''a photo of a cat''].
         argmax (map (dot [Fin 1, Fin 0]) [[Fin 1, Fin 0], [Fin 0, Fin 1]]) = Inr i
         \<and> index [''a photo of a dog'', ''a photo of a cat''] i
             = Inr ([''a photo of a dog'', ''a photo of a cat''] ! i))"
proof -
  have run: "result (run_all demo_world ''u'' [''a photo of a dog'', ''a photo of a cat'']) =
      Inr \<lparr>similarity = [Fin 1, Fin 0], best_match_idx = 0,
           best_prompt = ''a photo of a dog'', best_score = Fin 1\<rparr>"
    by (simp add: demo_run)
  have h: "[''a photo of a dog'', ''a photo of a cat''] \<noteq> []
      \<and> length [[Fin 1, Fin 0], [Fin 0, Fin 1]]
          = length [''a photo of a dog'', ''a photo of a cat'']"
    by simp
  from lookup_in_bounds [of demo_world "''u''" "[''a photo of a dog'', ''a photo of a cat'']"
      "[[Fin 1, Fin 0], [Fin 0, Fin 1]]" "[Fin 1, Fin 0]"] run h
  show ?thesis by simp
qed

end
